theory Spec2Isabelle
  imports Main "HOL-Library.AList"
begin

section \<open>Caption parsing: a model of \<^verbatim>\<open>parse_captions.py\<close>\<close>

text \<open>
  Strings are \<^typ>\<open>string\<close>, one \<^typ>\<open>char\<close> per character: the model covers
  ASCII text, where Python's code points and these characters coincide. Every
  exception the source can raise is a value of \<open>error\<close>; a function that can
  raise returns \<open>error + 'a\<close> with \<open>Inl\<close> for the exception.
\<close>

datatype error = ValueError | Exception

subsection \<open>String primitives of Python used by the source\<close>

definition is_digit :: "char \<Rightarrow> bool" where
  "is_digit c = (48 \<le> (of_char c :: nat) \<and> (of_char c :: nat) \<le> 57)"

definition digit_value :: "char \<Rightarrow> int" where
  "digit_value c = of_char c - 48"

text \<open>The characters \<^verbatim>\<open>str.strip()\<close> removes when it is given no argument
  (the ASCII whitespace: tab to carriage return, the four separators, space).\<close>

definition is_space :: "char \<Rightarrow> bool" where
  "is_space c = (let n = (of_char c :: nat) in (9 \<le> n \<and> n \<le> 13) \<or> (28 \<le> n \<and> n \<le> 32))"

text \<open>\<^verbatim>\<open>s.strip(chars)\<close>: drop leading and trailing characters that satisfy \<open>p\<close>.\<close>

definition strip_where :: "(char \<Rightarrow> bool) \<Rightarrow> string \<Rightarrow> string" where
  "strip_where p s = rev (dropWhile p (rev (dropWhile p s)))"

definition strip :: "string \<Rightarrow> string" where
  "strip s = strip_where is_space s"

definition lower_char :: "char \<Rightarrow> char" where
  "lower_char c =
     (let n = (of_char c :: nat) in if 65 \<le> n \<and> n \<le> 90 then char_of (n + 32) else c)"

definition lower :: "string \<Rightarrow> string" where
  "lower s = map lower_char s"

fun startswith :: "string \<Rightarrow> string \<Rightarrow> bool" where
  "startswith s [] = True"
| "startswith [] (p # ps) = False"
| "startswith (c # cs) (p # ps) = (c = p \<and> startswith cs ps)"

text \<open>Python compares strings by code point, lexicographically.\<close>

fun str_less :: "string \<Rightarrow> string \<Rightarrow> bool" where
  "str_less [] [] = False"
| "str_less [] (y # ys) = True"
| "str_less (x # xs) [] = False"
| "str_less (x # xs) (y # ys) =
     ((of_char x :: nat) < of_char y \<or> (x = y \<and> str_less xs ys))"

subsection \<open>Python floats\<close>

text \<open>
  A Python float is an IEEE binary64 number. \<open>Float m e\<close> stands for the number
  \<open>m * 2 ^ e\<close>; every result below is brought to the form where \<open>m\<close> is odd
  (or to \<open>Float 0 0\<close> for zero), so that equal numbers are equal terms. The
  operations round to the nearest double, ties to even, as the hardware does.
  Infinities, NaN and the sign of zero are not modelled: no operation of the
  source produces them from timestamps (an overflow would need more than
  \<open>10 ^ 300\<close> cues).
\<close>

datatype pyfloat = Float int int

function bit_length :: "int \<Rightarrow> int" where
  "bit_length n = (if n \<le> 0 then 0 else 1 + bit_length (n div 2))"
  by pat_completeness auto
termination
  by (relation "measure nat") auto

declare bit_length.simps [simp del]

function normalize :: "int \<Rightarrow> int \<Rightarrow> pyfloat" where
  "normalize m e =
     (if m = 0 then Float 0 0
      else if even m then normalize (m div 2) (e + 1)
      else Float m e)"
  by pat_completeness auto
termination
  by (relation "measure (\<lambda>(m, e). nat \<bar>m\<bar>)") auto

declare normalize.simps [simp del]

text \<open>The double nearest to the fraction \<open>n / d\<close>, for \<open>d > 0\<close>: \<open>e\<close> is the
  exponent of the leading bit of \<open>n / d\<close>, \<open>k\<close> the exponent of the last of
  the 53 bits kept (not below that of the subnormal numbers), \<open>q\<close> and \<open>r\<close>
  the quotient and the remainder in units of \<open>2 ^ k\<close>.\<close>

definition round_to_double :: "int \<Rightarrow> int \<Rightarrow> pyfloat" where
  "round_to_double n d =
     (if n = 0 then Float 0 0
      else
        (let p = \<bar>n\<bar>;
             b = bit_length p - bit_length d;
             e = (if d * 2 ^ nat b \<le> p * 2 ^ nat (- b) then b else b - 1);
             k = max e (- 1022) - 52;
             num = p * 2 ^ nat (- k);
             den = d * 2 ^ nat k;
             q = num div den;
             r = num mod den;
             q' = (if 2 * r < den then q
                   else if den < 2 * r then q + 1
                   else if even q then q else q + 1)
         in normalize (sgn n * q') k))"

text \<open>\<^verbatim>\<open>x + y\<close> and \<^verbatim>\<open>x - y\<close> on floats: the exact result, rounded.\<close>

fun float_add :: "pyfloat \<Rightarrow> pyfloat \<Rightarrow> pyfloat" where
  "float_add (Float m1 e1) (Float m2 e2) =
     (let e = min e1 e2
      in round_to_double ((m1 * 2 ^ nat (e1 - e) + m2 * 2 ^ nat (e2 - e)) * 2 ^ nat e)
           (2 ^ nat (- e)))"

fun float_sub :: "pyfloat \<Rightarrow> pyfloat \<Rightarrow> pyfloat" where
  "float_sub (Float m1 e1) (Float m2 e2) =
     (let e = min e1 e2
      in round_to_double ((m1 * 2 ^ nat (e1 - e) - m2 * 2 ^ nat (e2 - e)) * 2 ^ nat e)
           (2 ^ nat (- e)))"

text \<open>\<^verbatim>\<open>timedelta.total_seconds()\<close> of a difference of \<open>us\<close> microseconds: the
  true division of two integers, which Python rounds correctly.\<close>

definition total_seconds :: "int \<Rightarrow> pyfloat" where
  "total_seconds us = round_to_double us 1000000"

subsection \<open>Blocks, captions and durations\<close>

text \<open>A cue as the caption reader yields it: its two timestamps are strings of the
  form \<^verbatim>\<open>HH:MM:SS.mmm\<close>, its text is the raw payload.\<close>

record caption =
  caption_start :: string
  caption_end :: string
  caption_text :: string

text \<open>\<^verbatim>\<open>Block\<close> of the source. Its start and end are copies of the loop variables
  \<^verbatim>\<open>start_time\<close> and \<^verbatim>\<open>end_time\<close>, which are \<^verbatim>\<open>None\<close> until a cue sets them.
  The duration is a Python float, in seconds.\<close>

record block =
  block_start :: "string option"
  block_end :: "string option"
  block_duration :: pyfloat
  block_speaker :: string
  block_speech :: string

definition UNKNOWN_SPEAKER :: string where
  "UNKNOWN_SPEAKER = ''UNKNOWN''"

text \<open>One element of a pattern: a decimal digit or a given character.\<close>

datatype pat = Digit | Lit char

fun match_prefix :: "pat list \<Rightarrow> string \<Rightarrow> bool" where
  "match_prefix [] s = True"
| "match_prefix (p # ps) [] = False"
| "match_prefix (Digit # ps) (c # cs) = (is_digit c \<and> match_prefix ps cs)"
| "match_prefix (Lit l # ps) (c # cs) = (c = l \<and> match_prefix ps cs)"

text \<open>The regular expression \<^verbatim>\<open>^\d\d\:\d\d\:\d\d\.\d\d\d\<close>.\<close>

definition timestamp_pattern :: "pat list" where
  "timestamp_pattern =
     [Digit, Digit, Lit CHR '':'', Digit, Digit, Lit CHR '':'', Digit, Digit, Lit CHR ''.'',
      Digit, Digit, Digit]"

text \<open>\<^verbatim>\<open>datetime.time.fromisoformat\<close> on the timestamps of a cue, as microseconds
  since midnight. The model accepts the format the caption reader produces,
  \<^verbatim>\<open>HH:MM:SS.mmm\<close> with an hour below 24 and minute and second below 60; any
  other string is the \<^verbatim>\<open>ValueError\<close> of the library.\<close>

definition time_fromisoformat :: "string \<Rightarrow> error + int" where
  "time_fromisoformat s =
     (if length s = 12 \<and> match_prefix timestamp_pattern s then
        (let hh = 10 * digit_value (s ! 0) + digit_value (s ! 1);
             mm = 10 * digit_value (s ! 3) + digit_value (s ! 4);
             ss = 10 * digit_value (s ! 6) + digit_value (s ! 7);
             ms = 100 * digit_value (s ! 9) + 10 * digit_value (s ! 10) + digit_value (s ! 11)
         in if hh < 24 \<and> mm < 60 \<and> ss < 60
            then Inr (((hh * 60 + mm) * 60 + ss) * 1000000 + ms * 1000)
            else Inl ValueError)
      else Inl ValueError)"

text \<open>\<^verbatim>\<open>calc_duration\<close>: both times are put on the same placeholder date and
  subtracted, which gives a \<^verbatim>\<open>timedelta\<close> of the signed difference of the two
  times of day; the result is its \<^verbatim>\<open>total_seconds()\<close>, a float.\<close>

definition calc_duration :: "string \<Rightarrow> string \<Rightarrow> error + pyfloat" where
  "calc_duration start_time' end_time' =
     (case time_fromisoformat start_time' of
        Inl e \<Rightarrow> Inl e
      | Inr st \<Rightarrow>
          (case time_fromisoformat end_time' of
             Inl e \<Rightarrow> Inl e
           | Inr en \<Rightarrow> Inr (total_seconds (en - st))))"

subsection \<open>Nearest known speaker\<close>

text \<open>\<^verbatim>\<open>jellyfish.levenshtein_distance\<close>, a library function: the classic edit
  distance with unit cost for insertion, deletion and substitution.\<close>

fun levenshtein_distance :: "string \<Rightarrow> string \<Rightarrow> nat" where
  "levenshtein_distance [] t = length t"
| "levenshtein_distance (a # s) [] = Suc (length s)"
| "levenshtein_distance (a # s) (b # t) =
     min (Suc (levenshtein_distance s (b # t)))
       (min (Suc (levenshtein_distance (a # s) t))
            (levenshtein_distance s t + (if a = b then 0 else 1)))"

text \<open>Python's order on the tuples \<^verbatim>\<open>(score, candidate)\<close>: first the score, then
  the candidate.\<close>

definition tuple_less :: "nat \<times> string \<Rightarrow> nat \<times> string \<Rightarrow> bool" where
  "tuple_less p q = (fst p < fst q \<or> (fst p = fst q \<and> str_less (snd p) (snd q)))"

text \<open>The builtin \<^verbatim>\<open>min\<close> on a sequence: it raises \<^verbatim>\<open>ValueError\<close> on an empty
  one, and otherwise keeps the first item until a strictly smaller one comes.\<close>

fun min_from :: "nat \<times> string \<Rightarrow> (nat \<times> string) list \<Rightarrow> nat \<times> string" where
  "min_from m [] = m"
| "min_from m (y # ys) = min_from (if tuple_less y m then y else m) ys"

fun py_min :: "(nat \<times> string) list \<Rightarrow> error + (nat \<times> string)" where
  "py_min [] = Inl ValueError"
| "py_min (x # xs) = Inr (min_from x xs)"

definition get_closest_match :: "string \<Rightarrow> string list \<Rightarrow> error + string" where
  "get_closest_match query knowns =
     (case py_min (map (\<lambda>candidate. (levenshtein_distance query candidate, candidate)) knowns) of
        Inl e \<Rightarrow> Inl e
      | Inr (lowest_score, best_candidate) \<Rightarrow> Inr best_candidate)"

subsection \<open>The speaker map and \<^verbatim>\<open>infer_speaker\<close>\<close>

text \<open>The dictionary \<^verbatim>\<open>speaker_map\<close> is an association list in insertion order;
  \<^const>\<open>AList.update\<close> keeps the place of a key that is already there and appends a
  new one, as a Python dictionary does.\<close>

type_synonym speaker_map_t = "(string \<times> string) list"

definition initial_speaker_map :: "string list \<Rightarrow> speaker_map_t" where
  "initial_speaker_map known_speakers = fold (\<lambda>s m. AList.update s s m) known_speakers []"

text \<open>The closure \<^verbatim>\<open>infer_speaker\<close>, with the variables it captures as arguments
  and the map it may have changed as a result.\<close>

definition infer_speaker ::
  "bool \<Rightarrow> string list \<Rightarrow> speaker_map_t \<Rightarrow> string \<Rightarrow> error + (string \<times> speaker_map_t)" where
  "infer_speaker no_infer_speakers known_speakers m spk =
     (if no_infer_speakers then Inr (spk, m)
      else (case map_of m spk of
              None \<Rightarrow>
                (case get_closest_match spk known_speakers of
                   Inl e \<Rightarrow> Inl e
                 | Inr inferred_speaker \<Rightarrow>
                     Inr (inferred_speaker, AList.update spk inferred_speaker m))
            | Some v \<Rightarrow> Inr (v, m)))"

text \<open>The number of calls of \<^const>\<open>levenshtein_distance\<close> that one call of
  \<^const>\<open>infer_speaker\<close> makes: \<^const>\<open>get_closest_match\<close> makes one for each
  candidate, and it is called on a cache miss only.\<close>

definition infer_speaker_distance_calls ::
  "bool \<Rightarrow> string list \<Rightarrow> speaker_map_t \<Rightarrow> string \<Rightarrow> nat" where
  "infer_speaker_distance_calls no_infer_speakers known_speakers m spk =
     (if no_infer_speakers then 0
      else (case map_of m spk of None \<Rightarrow> length known_speakers | Some v \<Rightarrow> 0))"

subsection \<open>The loop of \<^verbatim>\<open>get_speech_blocks\<close>\<close>

text \<open>The variables of the function. \<^verbatim>\<open>duration\<close> starts as the integer 0, which
  the first addition of a float turns into a float of the same value.\<close>

record state =
  speaker_map :: speaker_map_t
  blocks :: "block list"
  last_line :: string
  start_time :: "string option"
  end_time :: "string option"
  duration :: pyfloat
  current_speech :: string
  speaker :: string

definition initial_state :: "string list \<Rightarrow> state" where
  "initial_state known_speakers =
     \<lparr>speaker_map = initial_speaker_map known_speakers, blocks = [], last_line = [],
      start_time = None, end_time = None, duration = Float 0 0, current_speech = [],
      speaker = UNKNOWN_SPEAKER\<rparr>"

text \<open>\<^verbatim>\<open>caption.text.strip("\r\n \u0000")\<close>.\<close>

definition normalized_line :: "caption \<Rightarrow> string" where
  "normalized_line c =
     strip_where (\<lambda>x. x \<in> set [CHR 0x0D, CHR 0x0A, CHR '' '', CHR 0x00]) (caption_text c)"

text \<open>\<^verbatim>\<open>line[2:].split(":")[0].strip().lower()\<close>.\<close>

definition raw_label :: "string \<Rightarrow> string" where
  "raw_label line = lower (strip (takeWhile (\<lambda>x. x \<noteq> CHR '':'') (drop 2 line)))"

text \<open>The branch of the loop body on the speaker marker: what happens between the
  assignment of \<^verbatim>\<open>last_line\<close> and the final update of \<^verbatim>\<open>duration\<close>.\<close>

definition marker_branch :: "bool \<Rightarrow> string list \<Rightarrow> state \<Rightarrow> caption \<Rightarrow> string \<Rightarrow> error + state" where
  "marker_branch no_infer_speakers known_speakers s c line =
     (let s1 = (case start_time s of
                  None \<Rightarrow> s
                | Some st \<Rightarrow>
                    s\<lparr>blocks := blocks s @
                       [\<lparr>block_start = start_time s, block_end = end_time s,
                         block_duration = duration s, block_speaker = speaker s,
                         block_speech = current_speech s\<rparr>]\<rparr>);
          s2 = s1\<lparr>current_speech := line, start_time := Some (caption_start c),
                  end_time := Some (caption_end c), duration := Float 0 0\<rparr>
      in if CHR '':'' \<in> set line then
           (case infer_speaker no_infer_speakers known_speakers (speaker_map s2) (raw_label line) of
              Inl e \<Rightarrow> Inl e
            | Inr (spk, m) \<Rightarrow> Inr (s2\<lparr>speaker := spk, speaker_map := m\<rparr>))
         else Inr (s2\<lparr>speaker := UNKNOWN_SPEAKER\<rparr>))"

definition continuation_branch :: "state \<Rightarrow> caption \<Rightarrow> string \<Rightarrow> state" where
  "continuation_branch s c line =
     s\<lparr>current_speech := current_speech s @ '' '' @ line, end_time := Some (caption_end c)\<rparr>"

text \<open>One iteration of the \<^verbatim>\<open>for\<close> loop.\<close>

definition loop_body :: "bool \<Rightarrow> string list \<Rightarrow> state \<Rightarrow> caption \<Rightarrow> error + state" where
  "loop_body no_infer_speakers known_speakers s c =
     (let line = normalized_line c in
      if line = last_line s then Inr s
      else
        (let s0 = s\<lparr>last_line := line\<rparr> in
         (case (if startswith line ''>>''
                then marker_branch no_infer_speakers known_speakers s0 c line
                else Inr (continuation_branch s0 c line)) of
            Inl e \<Rightarrow> Inl e
          | Inr s3 \<Rightarrow>
              (case calc_duration (caption_start c) (caption_end c) of
                 Inl e \<Rightarrow> Inl e
               | Inr d \<Rightarrow> Inr (s3\<lparr>duration := float_add (duration s3) d\<rparr>)))))"

fun run_loop :: "bool \<Rightarrow> string list \<Rightarrow> state \<Rightarrow> caption list \<Rightarrow> error + state" where
  "run_loop no_infer_speakers known_speakers s [] = Inr s"
| "run_loop no_infer_speakers known_speakers s (c # cs) =
     (case loop_body no_infer_speakers known_speakers s c of
        Inl e \<Rightarrow> Inl e
      | Inr s' \<Rightarrow> run_loop no_infer_speakers known_speakers s' cs)"

definition get_speech_blocks ::
  "caption list \<Rightarrow> bool \<Rightarrow> string list \<Rightarrow> error + (block list \<times> speaker_map_t)" where
  "get_speech_blocks captions no_infer_speakers known_speakers =
     (case run_loop no_infer_speakers known_speakers (initial_state known_speakers) captions of
        Inl e \<Rightarrow> Inl e
      | Inr s \<Rightarrow> Inr (blocks s, speaker_map s))"

text \<open>The transcript that \<^verbatim>\<open>main\<close> prints: \<^verbatim>\<open>"\n".join(b.speech for b in blocks)\<close>.\<close>

fun join_lines :: "string list \<Rightarrow> string" where
  "join_lines [] = []"
| "join_lines [x] = x"
| "join_lines (x # y # ys) = x @ [CHR 0x0A] @ join_lines (y # ys)"

definition transcript :: "block list \<Rightarrow> string" where
  "transcript bs = join_lines (map block_speech bs)"

text \<open>The list of known speakers as \<^verbatim>\<open>main\<close> builds it from the lines of the
  speaker file: the stripped lines that are not empty, and then the sentinel.\<close>

definition read_known_speakers :: "string list \<Rightarrow> string list" where
  "read_known_speakers speaker_lines =
     map strip (filter (\<lambda>line. strip line \<noteq> []) speaker_lines) @ [UNKNOWN_SPEAKER]"

subsection \<open>\<^verbatim>\<open>preprocess\<close>\<close>

text \<open>The file object is its text (as Python's text mode delivers it, with line ends
  already \<^verbatim>\<open>\\n\<close>) and a position. \<^verbatim>\<open>readline\<close> returns the characters from the
  position up to and including the next line feed, or up to the end of the file;
  at the end of the file it returns the empty string.\<close>

definition readline :: "string \<Rightarrow> nat \<Rightarrow> string" where
  "readline content pos =
     (let rest = drop pos content
      in takeWhile (\<lambda>x. x \<noteq> CHR 0x0A) rest @ take 1 (dropWhile (\<lambda>x. x \<noteq> CHR 0x0A) rest))"

text \<open>The \<^verbatim>\<open>while True\<close> loop of \<^verbatim>\<open>preprocess\<close>: \<open>pos\<close> is the position of the
  file object (what \<^verbatim>\<open>tell\<close> returns), \<open>file_pos\<close> the variable of the source.\<close>

function find_timestamp_line :: "string \<Rightarrow> nat \<Rightarrow> nat \<Rightarrow> error + nat" where
  "find_timestamp_line content pos file_pos =
     (let line = readline content pos in
      if line = [] then Inl Exception
      else if match_prefix timestamp_pattern line then Inr file_pos
      else find_timestamp_line content (pos + length line) (pos + length line))"
  by pat_completeness auto
termination
proof (relation "measure (\<lambda>(content, pos, file_pos). length content - pos)")
  show "wf (measure (\<lambda>(content, pos, file_pos). length content - pos))" by simp
next
  fix content :: string and pos file_pos :: nat and x :: string
  assume x: "x = readline content pos" and ne: "x \<noteq> []"
  have "pos < length content"
  proof (rule ccontr)
    assume "\<not> pos < length content"
    then have "drop pos content = []" by simp
    with x ne show False by (simp add: readline_def)
  qed
  then show "((content, pos + length x, pos + length x), (content, pos, file_pos))
      \<in> measure (\<lambda>(content, pos, file_pos). length content - pos)"
    using ne by (cases x) simp_all
qed

declare find_timestamp_line.simps [simp del]

definition preprocess :: "string \<Rightarrow> error + string" where
  "preprocess content =
     (case find_timestamp_line content 0 0 of
        Inl e \<Rightarrow> Inl e
      | Inr file_pos \<Rightarrow> Inr (''WEBVTT'' @ [CHR 0x0D, CHR 0x0A] @ drop file_pos content))"

subsection \<open>Notions used to state the properties\<close>

text \<open>The lines of a text, each with its line feed (the last one may lack it).\<close>

fun lines_from :: "string \<Rightarrow> string \<Rightarrow> string list" where
  "lines_from acc [] = (if acc = [] then [] else [acc])"
| "lines_from acc (c # cs) =
     (if c = CHR 0x0A then (acc @ [c]) # lines_from [] cs else lines_from (acc @ [c]) cs)"

definition file_lines :: "string \<Rightarrow> string list" where
  "file_lines content = lines_from [] content"

definition is_timestamp_line :: "string \<Rightarrow> bool" where
  "is_timestamp_line line = match_prefix timestamp_pattern line"

text \<open>The cues that pass the duplicate test, when \<open>l\<close> is the last accepted line.\<close>

fun accepted :: "string \<Rightarrow> caption list \<Rightarrow> caption list" where
  "accepted l [] = []"
| "accepted l (c # cs) =
     (if normalized_line c = l then accepted l cs else c # accepted (normalized_line c) cs)"

definition is_marker :: "caption \<Rightarrow> bool" where
  "is_marker c = startswith (normalized_line c) ''>>''"

text \<open>A list of cues cut at its marker cues: the cues before the first marker, and
  then one group for each marker, made of the marker cue and the cues that follow
  it up to the next marker.\<close>

fun split_groups :: "caption list \<Rightarrow> caption list \<times> caption list list" where
  "split_groups [] = ([], [])"
| "split_groups (c # cs) =
     (case split_groups cs of
        (pre, gs) \<Rightarrow> if is_marker c then ([], (c # pre) # gs) else (c # pre, gs))"

definition pre_marker :: "caption list \<Rightarrow> caption list" where
  "pre_marker cs = fst (split_groups cs)"

definition groups :: "caption list \<Rightarrow> caption list list" where
  "groups cs = snd (split_groups cs)"

text \<open>The contribution of a cue: its end minus its start, in seconds, as the
  nearest double (zero when a timestamp cannot be read).\<close>

definition contribution :: "caption \<Rightarrow> pyfloat" where
  "contribution c =
     (case time_fromisoformat (caption_start c) of
        Inl e \<Rightarrow> Float 0 0
      | Inr st \<Rightarrow>
          (case time_fromisoformat (caption_end c) of
             Inl e \<Rightarrow> Float 0 0
           | Inr en \<Rightarrow> round_to_double (en - st) 1000000))"

text \<open>The float sum of the contributions of the cues \<open>cs\<close>, added one after the
  other, in their order, to \<open>d\<close>.\<close>

definition duration_after :: "pyfloat \<Rightarrow> caption list \<Rightarrow> pyfloat" where
  "duration_after d cs = foldl (\<lambda>a c. float_add a (contribution c)) d cs"

text \<open>Sums and differences without rounding, and the exact sum of the
  contributions of a list of cues.\<close>

fun exact_add :: "pyfloat \<Rightarrow> pyfloat \<Rightarrow> pyfloat" where
  "exact_add (Float m1 e1) (Float m2 e2) =
     (let e = min e1 e2 in normalize (m1 * 2 ^ nat (e1 - e) + m2 * 2 ^ nat (e2 - e)) e)"

fun exact_sub :: "pyfloat \<Rightarrow> pyfloat \<Rightarrow> pyfloat" where
  "exact_sub (Float m1 e1) (Float m2 e2) =
     (let e = min e1 e2 in normalize (m1 * 2 ^ nat (e1 - e) - m2 * 2 ^ nat (e2 - e)) e)"

definition exact_total :: "caption list \<Rightarrow> pyfloat" where
  "exact_total cs = foldl (\<lambda>a c. exact_add a (contribution c)) (Float 0 0) cs"

text \<open>The speech and the end time after the continuation cues \<open>cs\<close>.\<close>

definition speech_after :: "string \<Rightarrow> caption list \<Rightarrow> string" where
  "speech_after sp cs = foldl (\<lambda>a c. a @ '' '' @ normalized_line c) sp cs"

definition end_after :: "string option \<Rightarrow> caption list \<Rightarrow> string option" where
  "end_after e cs = foldl (\<lambda>a c. Some (caption_end c)) e cs"

text \<open>The speaker a raw label stands for: itself without inference or when it is a
  known speaker, its closest match otherwise.\<close>

definition resolved :: "bool \<Rightarrow> string list \<Rightarrow> string \<Rightarrow> string" where
  "resolved no_infer_speakers known_speakers x =
     (if no_infer_speakers \<or> x \<in> set known_speakers then x
      else (case get_closest_match x known_speakers of Inl e \<Rightarrow> x | Inr v \<Rightarrow> v))"

definition marker_speaker :: "bool \<Rightarrow> string list \<Rightarrow> string \<Rightarrow> string" where
  "marker_speaker no_infer_speakers known_speakers line =
     (if CHR '':'' \<in> set line then resolved no_infer_speakers known_speakers (raw_label line)
      else UNKNOWN_SPEAKER)"

text \<open>The block of a group: the marker cue \<open>c\<close> and its continuation cues.\<close>

fun block_of :: "bool \<Rightarrow> string list \<Rightarrow> caption list \<Rightarrow> block" where
  "block_of no_infer_speakers known_speakers (c # cs) =
     \<lparr>block_start = Some (caption_start c),
      block_end = end_after (Some (caption_end c)) cs,
      block_duration = duration_after (Float 0 0) (c # cs),
      block_speaker = marker_speaker no_infer_speakers known_speakers (normalized_line c),
      block_speech = speech_after (normalized_line c) cs\<rparr>"

text \<open>The speaker map holds every known speaker under its own name, and every
  other label under its closest match.\<close>

definition map_ok :: "string list \<Rightarrow> speaker_map_t \<Rightarrow> bool" where
  "map_ok known_speakers m =
     ((\<forall>k\<in>set known_speakers. map_of m k = Some k) \<and>
      (\<forall>k v. map_of m k = Some v \<longrightarrow>
         v \<in> set known_speakers \<and>
         (k \<notin> set known_speakers \<longrightarrow> get_closest_match k known_speakers = Inr v)))"

text \<open>The block that is in the loop variables of the state \<open>s\<close>, if there is one,
  after the continuation cues \<open>pre\<close>.\<close>

definition current_block :: "state \<Rightarrow> caption list \<Rightarrow> block list" where
  "current_block s pre =
     (case start_time s of
        None \<Rightarrow> []
      | Some st \<Rightarrow>
          [\<lparr>block_start = start_time s, block_end = end_after (end_time s) pre,
            block_duration = duration_after (duration s) pre,
            block_speaker = speaker s,
            block_speech = speech_after (current_speech s) pre\<rparr>])"

text \<open>The blocks that the accepted cues \<open>cs\<close> make the loop append, from the
  state \<open>s\<close> on.\<close>

definition emitted_from :: "bool \<Rightarrow> string list \<Rightarrow> state \<Rightarrow> caption list \<Rightarrow> block list" where
  "emitted_from no_infer_speakers known_speakers s cs =
     (if groups cs = [] then []
      else current_block s (pre_marker cs) @
           map (block_of no_infer_speakers known_speakers) (butlast (groups cs)))"

subsection \<open>Concrete inputs\<close>

definition scenario_A :: "caption list" where
  "scenario_A =
     [\<lparr>caption_start = ''00:00:00.000'', caption_end = ''00:00:02.000'',
       caption_text = ''>> smith: hello''\<rparr>,
      \<lparr>caption_start = ''00:00:02.000'', caption_end = ''00:00:04.000'',
       caption_text = ''there''\<rparr>]"

definition cue_smth :: caption where
  "cue_smth =
     \<lparr>caption_start = ''00:00:00.000'', caption_end = ''00:00:02.000'',
      caption_text = ''>> smth: hello''\<rparr>"

definition cue_blank :: caption where
  "cue_blank =
     \<lparr>caption_start = ''00:00:00.000'', caption_end = ''00:00:01.000'',
      caption_text = [CHR 0x0D, CHR 0x0A]\<rparr>"

definition cue_gap_a :: caption where
  "cue_gap_a = \<lparr>caption_start = ''00:00:00.000'', caption_end = ''00:00:02.000'',
       caption_text = ''>> smith: a''\<rparr>"

definition cue_gap_b :: caption where
  "cue_gap_b = \<lparr>caption_start = ''00:00:10.000'', caption_end = ''00:00:12.000'',
       caption_text = ''b''\<rparr>"

definition cue_gap_c :: caption where
  "cue_gap_c = \<lparr>caption_start = ''00:00:12.000'', caption_end = ''00:00:13.000'',
       caption_text = ''>> jones: c''\<rparr>"

definition scenario_gap :: "caption list" where
  "scenario_gap = [cue_gap_a, cue_gap_b, cue_gap_c]"

definition gap_known :: "string list" where
  "gap_known = [''smith'', ''jones'', ''UNKNOWN'']"

definition gap_state_1 :: state where
  "gap_state_1 =
     \<lparr>speaker_map = [(''smith'', ''smith''), (''jones'', ''jones''), (''UNKNOWN'', ''UNKNOWN'')],
      blocks = [], last_line = ''>> smith: a'', start_time = Some ''00:00:00.000'',
      end_time = Some ''00:00:02.000'', duration = Float 1 1,
      current_speech = ''>> smith: a'', speaker = ''smith''\<rparr>"

definition gap_state_2 :: state where
  "gap_state_2 =
     \<lparr>speaker_map = [(''smith'', ''smith''), (''jones'', ''jones''), (''UNKNOWN'', ''UNKNOWN'')],
      blocks = [], last_line = ''b'', start_time = Some ''00:00:00.000'',
      end_time = Some ''00:00:12.000'', duration = Float 1 2,
      current_speech = ''>> smith: a b'', speaker = ''smith''\<rparr>"

definition gap_state_3 :: state where
  "gap_state_3 =
     \<lparr>speaker_map = [(''smith'', ''smith''), (''jones'', ''jones''), (''UNKNOWN'', ''UNKNOWN'')],
      blocks = [\<lparr>block_start = Some ''00:00:00.000'', block_end = Some ''00:00:12.000'',
            block_duration = Float 1 2, block_speaker = ''smith'',
            block_speech = ''>> smith: a b''\<rparr>],
      last_line = ''>> jones: c'', start_time = Some ''00:00:12.000'',
      end_time = Some ''00:00:13.000'', duration = Float 1 0,
      current_speech = ''>> jones: c'', speaker = ''jones''\<rparr>"

definition cue_welcome :: caption where
  "cue_welcome =
     \<lparr>caption_start = ''00:00:00.000'', caption_end = ''00:00:05.000'',
      caption_text = ''welcome''\<rparr>"

definition welcome_state :: state where
  "welcome_state =
     \<lparr>speaker_map = [(''smith'', ''smith''), (''jones'', ''jones''), (''UNKNOWN'', ''UNKNOWN'')],
      blocks = [], last_line = ''welcome'', start_time = None,
      end_time = Some ''00:00:05.000'', duration = Float 5 0,
      current_speech = '' welcome'', speaker = ''UNKNOWN''\<rparr>"

definition vtt_with_header :: string where
  "vtt_with_header =
     ''WEBVTT - made by hand'' @ [CHR 0x0A] @ ''X-TIMESTAMP-MAP=1'' @ [CHR 0x0A] @ [CHR 0x0A] @
     ''00:00:00.000 --> 00:00:02.000'' @ [CHR 0x0A] @ ''>> smith: hello'' @ [CHR 0x0A]"

definition vtt_without_cue :: string where
  "vtt_without_cue = ''WEBVTT'' @ [CHR 0x0A] @ ''0:00:00.000 --> 0:00:02.000'' @ [CHR 0x0A]"

definition cue_tenth_a :: caption where
  "cue_tenth_a = \<lparr>caption_start = ''00:00:00.000'', caption_end = ''00:00:00.100'',
       caption_text = ''>> smith: a''\<rparr>"

definition cue_tenth_b :: caption where
  "cue_tenth_b = \<lparr>caption_start = ''00:00:00.100'', caption_end = ''00:00:00.300'',
       caption_text = ''b''\<rparr>"

definition cue_tenth_c :: caption where
  "cue_tenth_c = \<lparr>caption_start = ''00:00:00.300'', caption_end = ''00:00:00.500'',
       caption_text = ''>> jones: c''\<rparr>"

definition scenario_tenths :: "caption list" where
  "scenario_tenths = [cue_tenth_a, cue_tenth_b, cue_tenth_c]"




section \<open>Properties\<close>

subsection \<open>The order on strings and on tuples, and \<^verbatim>\<open>min\<close>\<close>

lemma str_less_irrefl: "\<not> str_less x x"
  by (induction x) auto

lemma str_less_trans: "str_less x y \<Longrightarrow> str_less y z \<Longrightarrow> str_less x z"
proof (induction x arbitrary: y z)
  case Nil
  then show ?case by (cases y; cases z) auto
next
  case (Cons a x)
  then show ?case by (cases y; cases z) auto
qed

lemma str_less_total: "x \<noteq> y \<Longrightarrow> str_less x y \<or> str_less y x"
proof (induction x y rule: str_less.induct)
  case (4 a xs b ys)
  show ?case
  proof (cases "a = b")
    case True
    with 4 show ?thesis by auto
  next
    case False
    then have "(of_char a :: nat) < of_char b \<or> (of_char b :: nat) < of_char a"
      by (metis of_char_eq_iff nat_neq_iff)
    then show ?thesis by auto
  qed
qed auto

lemma tuple_less_irrefl: "\<not> tuple_less p p"
  by (simp add: tuple_less_def str_less_irrefl)

lemma tuple_less_trans: "tuple_less p q \<Longrightarrow> tuple_less q r \<Longrightarrow> tuple_less p r"
  by (auto simp: tuple_less_def intro: str_less_trans)

lemma tuple_less_total: "p \<noteq> q \<Longrightarrow> tuple_less p q \<or> tuple_less q p"
  using str_less_total [of "snd p" "snd q"] by (cases p; cases q) (auto simp: tuple_less_def)

lemma min_from_le_init: "min_from x xs = x \<or> tuple_less (min_from x xs) x"
proof (induction xs arbitrary: x)
  case Nil
  then show ?case by simp
next
  case (Cons a xs)
  show ?case
  proof (cases "tuple_less a x")
    case True
    with Cons[of a] show ?thesis by (auto intro: tuple_less_trans)
  next
    case False
    with Cons[of x] show ?thesis by auto
  qed
qed

lemma min_from_mem: "min_from x xs \<in> set (x # xs)"
proof (induction xs arbitrary: x)
  case Nil
  then show ?case by simp
next
  case (Cons a xs)
  from Cons[of a] Cons[of x] show ?case by auto
qed

lemma min_from_lower: "y \<in> set (x # xs) \<Longrightarrow> \<not> tuple_less y (min_from x xs)"
proof (induction xs arbitrary: x)
  case Nil
  then show ?case by (simp add: tuple_less_irrefl)
next
  case (Cons a xs)
  show ?case
  proof (cases "tuple_less a x")
    case True
    have fa: "min_from x (a # xs) = min_from a xs" using True by simp
    show ?thesis
    proof (cases "y = x")
      case True
      from min_from_le_init[of a xs] \<open>tuple_less a x\<close>
      have "tuple_less (min_from a xs) x" by (auto intro: tuple_less_trans)
      then show ?thesis unfolding fa True
        by (auto dest: tuple_less_trans simp: tuple_less_irrefl)
    next
      case False
      with Cons.prems have "y \<in> set (a # xs)" by auto
      from Cons.IH[OF this] show ?thesis unfolding fa .
    qed
  next
    case False
    have fa: "min_from x (a # xs) = min_from x xs" using False by simp
    show ?thesis
    proof (cases "y = a")
      case True
      from min_from_le_init[of x xs]
      have "min_from x xs = x \<or> tuple_less (min_from x xs) x" .
      then show ?thesis unfolding fa True
        using False by (auto dest: tuple_less_trans)
    next
      case False
      with Cons.prems have "y \<in> set (x # xs)" by auto
      from Cons.IH[OF this] show ?thesis unfolding fa .
    qed
  qed
qed

lemma py_min_spec:
  assumes "ps \<noteq> []"
  shows "\<exists>m. py_min ps = Inr m \<and> m \<in> set ps \<and> (\<forall>y\<in>set ps. \<not> tuple_less y m)"
proof -
  from assms obtain x xs where ps: "ps = x # xs" by (cases ps) auto
  show ?thesis unfolding ps using min_from_mem[of x xs] min_from_lower[of _ x xs]
    by auto
qed

lemma get_closest_match_spec:
  assumes "knowns \<noteq> []"
  shows "\<exists>c. get_closest_match query knowns = Inr c \<and> c \<in> set knowns \<and>
           (\<forall>k\<in>set knowns. \<not> tuple_less (levenshtein_distance query k, k)
                                         (levenshtein_distance query c, c))"
proof -
  let ?ps = "map (\<lambda>candidate. (levenshtein_distance query candidate, candidate)) knowns"
  from assms have "?ps \<noteq> []" by simp
  from py_min_spec[OF this] obtain m where
    m: "py_min ?ps = Inr m" "m \<in> set ?ps" "\<forall>y\<in>set ?ps. \<not> tuple_less y m" by blast
  from m(2) obtain c where c: "c \<in> set knowns" "m = (levenshtein_distance query c, c)" by auto
  have "get_closest_match query knowns = Inr c"
    by (simp add: get_closest_match_def m(1) c(2))
  moreover have "\<forall>k\<in>set knowns. \<not> tuple_less (levenshtein_distance query k, k)
                                         (levenshtein_distance query c, c)"
    using m(3) c(2) by auto
  ultimately show ?thesis using c(1) by blast
qed

lemma get_closest_match_mem:
  "get_closest_match query knowns = Inr c \<Longrightarrow> c \<in> set knowns"
proof (cases "knowns = []")
  case True
  assume "get_closest_match query knowns = Inr c"
  with True show ?thesis by (simp add: get_closest_match_def)
next
  case False
  assume a: "get_closest_match query knowns = Inr c"
  from get_closest_match_spec[OF False, of query] a show ?thesis by auto
qed

subsection \<open>Ties between candidates\<close>

text \<open>
  C3, as the code has it. When several candidates are at the minimum distance from
  the query, \<^const>\<open>get_closest_match\<close> takes the minimum of the tuples
  \<^verbatim>\<open>(distance, candidate)\<close>, so among the tied candidates it returns the one
  that is least in the order of strings, wherever it stands in the list. For
  every non-empty list it returns a member of the list at minimum distance, and
  every other member at that distance is greater as a string.
\<close>

theorem get_closest_match_tie:
  assumes "knowns \<noteq> []"
  shows "\<exists>c. get_closest_match query knowns = Inr c \<and> c \<in> set knowns \<and>
           (\<forall>k\<in>set knowns.
              levenshtein_distance query c \<le> levenshtein_distance query k \<and>
              (levenshtein_distance query k = levenshtein_distance query c \<longrightarrow>
                 k = c \<or> str_less c k))"
proof -
  from get_closest_match_spec[OF assms, of query] obtain c where
    c: "get_closest_match query knowns = Inr c" "c \<in> set knowns"
       "\<forall>k\<in>set knowns. \<not> tuple_less (levenshtein_distance query k, k)
                                         (levenshtein_distance query c, c)" by blast
  have "levenshtein_distance query c \<le> levenshtein_distance query k \<and>
        (levenshtein_distance query k = levenshtein_distance query c \<longrightarrow> k = c \<or> str_less c k)"
    if "k \<in> set knowns" for k
  proof -
    from c(3) that have n: "\<not> tuple_less (levenshtein_distance query k, k)
                                         (levenshtein_distance query c, c)" by blast
    then have "levenshtein_distance query c \<le> levenshtein_distance query k"
      by (auto simp: tuple_less_def)
    moreover have "k = c \<or> str_less c k" if "levenshtein_distance query k = levenshtein_distance query c"
      using n that str_less_total[of k c] by (auto simp: tuple_less_def)
    ultimately show ?thesis by blast
  qed
  with c(1,2) show ?thesis by blast
qed

theorem get_closest_match_tie_witness:
  "[''b'', ''a''] \<noteq> [] \<and>
   (\<exists>c. get_closest_match ''c'' [''b'', ''a''] = Inr c \<and> c \<in> set [''b'', ''a''] \<and>
     (\<forall>k\<in>set [''b'', ''a''].
        levenshtein_distance ''c'' c \<le> levenshtein_distance ''c'' k \<and>
        (levenshtein_distance ''c'' k = levenshtein_distance ''c'' c \<longrightarrow> k = c \<or> str_less c k)))"
proof -
  have h: "[''b'', ''a''] \<noteq> ([] :: string list)" by simp
  show ?thesis by (rule conjI [OF h get_closest_match_tie [OF h]])
qed

text \<open>
  C3 as stated fails: for the query \<open>c\<close> and the known speakers \<open>b\<close>, \<open>a\<close>
  (in that order) both candidates are at distance 1, and the result is \<open>a\<close>,
  the second of the list, not \<open>b\<close>, the first.
\<close>

theorem first_tied_candidate_counterexample:
  "levenshtein_distance ''c'' ''b'' = 1 \<and> levenshtein_distance ''c'' ''a'' = 1 \<and>
   get_closest_match ''c'' [''b'', ''a''] = Inr ''a'' \<and>
   get_closest_match ''c'' [''b'', ''a''] \<noteq> Inr ''b''"
  by code_simp

subsection \<open>Scenario A\<close>

lemma scenario_A_final_state:
  "run_loop False [''smith'', ''UNKNOWN''] (initial_state [''smith'', ''UNKNOWN'']) scenario_A =
     Inr \<lparr>speaker_map = [(''smith'', ''smith''), (''UNKNOWN'', ''UNKNOWN'')], blocks = [],
          last_line = ''there'', start_time = Some ''00:00:00.000'',
          end_time = Some ''00:00:04.000'', duration = Float 1 2,
          current_speech = ''>> smith: hello there'', speaker = ''smith''\<rparr>"
  by code_simp

text \<open>
  C1 on the code. For the two cues of scenario A, with the known speakers
  \<open>smith\<close> and the sentinel, and with inference on, \<^const>\<open>get_speech_blocks\<close>
  returns no block at all: the block of \<open>smith\<close> (speech
  \<open>>> smith: hello there\<close>, 4.0 seconds) is still in the loop variables
  when the cues end, and nothing appends it.
\<close>

theorem scenario_A_emits_no_block:
  "get_speech_blocks scenario_A False [''smith'', ''UNKNOWN''] =
     Inr ([], [(''smith'', ''smith''), (''UNKNOWN'', ''UNKNOWN'')])"
  by code_simp

subsection \<open>The speaker resolver\<close>

text \<open>
  C7. Without inference, \<^const>\<open>infer_speaker\<close> returns the raw label as it is,
  whatever the speaker map holds, returns the map as it was given, and computes no
  distance.
\<close>

theorem infer_speaker_disabled:
  "infer_speaker True known_speakers m x = Inr (x, m) \<and>
   infer_speaker_distance_calls True known_speakers m x = 0"
  by (simp add: infer_speaker_def infer_speaker_distance_calls_def)

subsection \<open>One iteration of the loop\<close>

lemma loop_body_duplicate:
  "normalized_line c = last_line s \<Longrightarrow> loop_body ni ks s c = Inr s"
  by (simp add: loop_body_def)

lemma loop_body_continuation:
  assumes "normalized_line c \<noteq> last_line s" and "\<not> is_marker c"
    and "loop_body ni ks s c = Inr s'"
  shows "\<exists>d. calc_duration (caption_start c) (caption_end c) = Inr d \<and>
           s' = s\<lparr>last_line := normalized_line c,
                  current_speech := current_speech s @ '' '' @ normalized_line c,
                  end_time := Some (caption_end c),
                  duration := float_add (duration s) d\<rparr>"
  using assms
  by (auto simp: loop_body_def is_marker_def continuation_branch_def Let_def
           split: sum.splits)

lemma loop_body_marker:
  assumes "normalized_line c \<noteq> last_line s" and "is_marker c"
    and "loop_body ni ks s c = Inr s'"
  shows "\<exists>d v m. calc_duration (caption_start c) (caption_end c) = Inr d \<and>
           (if CHR '':'' \<in> set (normalized_line c)
            then infer_speaker ni ks (speaker_map s) (raw_label (normalized_line c)) = Inr (v, m)
            else v = UNKNOWN_SPEAKER \<and> m = speaker_map s) \<and>
           s' = \<lparr>speaker_map = m,
                 blocks = blocks s @
                   (case start_time s of
                      None \<Rightarrow> []
                    | Some st \<Rightarrow>
                        [\<lparr>block_start = start_time s, block_end = end_time s,
                          block_duration = duration s, block_speaker = speaker s,
                          block_speech = current_speech s\<rparr>]),
                 last_line = normalized_line c,
                 start_time = Some (caption_start c),
                 end_time = Some (caption_end c),
                 duration = float_add (Float 0 0) d,
                 current_speech = normalized_line c,
                 speaker = v\<rparr>"
  using assms
  by (auto simp: loop_body_def is_marker_def marker_branch_def Let_def
           split: sum.splits option.splits if_splits)

lemma infer_speaker_keeps_entries:
  assumes "infer_speaker ni ks m x = Inr (v, m')" and "map_of m k = Some u"
  shows "map_of m' k = Some u"
  using assms
  by (auto simp: infer_speaker_def update_conv' split: if_splits option.splits sum.splits)

lemma loop_body_keeps_entries:
  assumes "loop_body ni ks s c = Inr s'" and "map_of (speaker_map s) k = Some u"
  shows "map_of (speaker_map s') k = Some u"
proof (cases "normalized_line c = last_line s")
  case True
  with assms show ?thesis by (simp add: loop_body_duplicate)
next
  case False
  show ?thesis
  proof (cases "is_marker c")
    case True
    from loop_body_marker[OF False True assms(1)] assms(2) show ?thesis
      by (auto split: if_splits dest: infer_speaker_keeps_entries)
  next
    case nm: False
    from loop_body_continuation[OF False nm assms(1)] assms(2) show ?thesis by auto
  qed
qed

lemma run_loop_keeps_entries:
  "run_loop ni ks s cs = Inr s' \<Longrightarrow> map_of (speaker_map s) k = Some u \<Longrightarrow>
   map_of (speaker_map s') k = Some u"
proof (induction cs arbitrary: s)
  case Nil
  then show ?case by simp
next
  case (Cons c cs)
  from Cons.prems(1) obtain t where t: "loop_body ni ks s c = Inr t" "run_loop ni ks t cs = Inr s'"
    by (auto split: sum.splits)
  from loop_body_keeps_entries[OF t(1) Cons.prems(2)] Cons.IH[OF t(2)] show ?case by blast
qed

text \<open>
  C4. With inference on, a label that \<^const>\<open>infer_speaker\<close> has resolved is a key
  of the map it returns, with the result as its value; a second resolution, from
  that map, returns the same value and the same map whatever the list of known
  speakers is (even the empty one, on which a search would raise), and computes
  no distance. Through a whole run of the loop an entry of the speaker map keeps
  its value.
\<close>

theorem infer_speaker_memoized:
  "(infer_speaker False ks m x = Inr (v, m') \<longrightarrow>
      map_of m' x = Some v \<and>
      infer_speaker False ks' m' x = Inr (v, m') \<and>
      infer_speaker_distance_calls False ks' m' x = 0) \<and>
   (run_loop ni ks s cs = Inr s' \<and> map_of (speaker_map s) k = Some u \<longrightarrow>
      map_of (speaker_map s') k = Some u)"
proof -
  have "map_of m' x = Some v" if "infer_speaker False ks m x = Inr (v, m')"
    using that
    by (auto simp: infer_speaker_def update_conv' split: option.splits sum.splits)
  then show ?thesis
    using run_loop_keeps_entries[of ni ks s cs s' k u]
    by (auto simp: infer_speaker_def infer_speaker_distance_calls_def)
qed

theorem infer_speaker_memoized_witness:
  "infer_speaker False [''smith'', ''jones'', ''UNKNOWN'']
     (initial_speaker_map [''smith'', ''jones'', ''UNKNOWN'']) ''smth'' =
     Inr (''smith'', [(''smith'', ''smith''), (''jones'', ''jones''), (''UNKNOWN'', ''UNKNOWN''), (''smth'', ''smith'')]) \<and>
   infer_speaker False []
     [(''smith'', ''smith''), (''jones'', ''jones''), (''UNKNOWN'', ''UNKNOWN''), (''smth'', ''smith'')] ''smth'' =
     Inr (''smith'', [(''smith'', ''smith''), (''jones'', ''jones''), (''UNKNOWN'', ''UNKNOWN''), (''smth'', ''smith'')]) \<and>
   (\<exists>s'. run_loop False [''smith'', ''jones'', ''UNKNOWN'']
       (initial_state [''smith'', ''jones'', ''UNKNOWN'']) [cue_smth] = Inr s' \<and>
      map_of (speaker_map s') ''jones'' = Some ''jones'')"
proof -
  let ?ks = "[''smith'', ''jones'', ''UNKNOWN'']"
  let ?m' = "[(''smith'', ''smith''), (''jones'', ''jones''), (''UNKNOWN'', ''UNKNOWN''), (''smth'', ''smith'')]"
  have a: "infer_speaker False ?ks (initial_speaker_map ?ks) ''smth'' = Inr (''smith'', ?m')"
    by code_simp
  obtain s' where r: "run_loop False ?ks (initial_state ?ks) [cue_smth] = Inr s'"
    by (cases "run_loop False ?ks (initial_state ?ks) [cue_smth]") (simp_all, code_simp)
  have j: "map_of (speaker_map (initial_state ?ks)) ''jones'' = Some ''jones''"
    by code_simp
  from infer_speaker_memoized [of ?ks "initial_speaker_map ?ks" "''smth''" "''smith''" ?m' "[]"
        False "initial_state ?ks" "[cue_smth]" s' "''jones''" "''jones''"] a r j
  show ?thesis by blast
qed

subsection \<open>Duplicate cues\<close>

text \<open>
  C5. The last accepted line is the empty string at first. A cue whose normalized
  line equals the last accepted line leaves the whole state as it is, so the run
  goes on as if the cue were not there. A cue whose normalized line differs is
  processed: it becomes the last accepted line, and its own duration is added to
  \<^verbatim>\<open>duration\<close> (after the reset, when it is a marker).
\<close>

theorem duplicate_cue_discarded:
  "(normalized_line c = last_line s \<longrightarrow>
      loop_body ni ks s c = Inr s \<and> run_loop ni ks s (c # cs) = run_loop ni ks s cs) \<and>
   (normalized_line c' \<noteq> last_line s \<and> loop_body ni ks s c' = Inr s' \<longrightarrow>
      last_line s' = normalized_line c' \<and>
      (\<exists>d. calc_duration (caption_start c') (caption_end c') = Inr d \<and>
           duration s' = float_add (if is_marker c' then Float 0 0 else duration s) d)) \<and>
   last_line (initial_state ks) = []"
proof -
  have "last_line s' = normalized_line c' \<and>
      (\<exists>d. calc_duration (caption_start c') (caption_end c') = Inr d \<and>
           duration s' = float_add (if is_marker c' then Float 0 0 else duration s) d)"
    if n: "normalized_line c' \<noteq> last_line s" and l: "loop_body ni ks s c' = Inr s'"
  proof (cases "is_marker c'")
    case True
    from loop_body_marker[OF n True l] show ?thesis using True by auto
  next
    case False
    from loop_body_continuation[OF n False l] show ?thesis using False by auto
  qed
  then show ?thesis
    by (auto simp: loop_body_duplicate initial_state_def)
qed

theorem duplicate_cue_discarded_witness:
  "normalized_line cue_blank = last_line (initial_state [''smith'', ''UNKNOWN'']) \<and>
   loop_body False [''smith'', ''UNKNOWN''] (initial_state [''smith'', ''UNKNOWN'']) cue_blank =
     Inr (initial_state [''smith'', ''UNKNOWN'']) \<and>
   normalized_line cue_smth \<noteq> last_line (initial_state [''smith'', ''UNKNOWN'']) \<and>
   (\<exists>s'. loop_body False [''smith'', ''UNKNOWN''] (initial_state [''smith'', ''UNKNOWN'']) cue_smth = Inr s' \<and>
         last_line s' = normalized_line cue_smth \<and> duration s' = Float 1 1)"
proof -
  let ?ks = "[''smith'', ''UNKNOWN'']"
  let ?s = "initial_state ?ks"
  have h1: "normalized_line cue_blank = last_line ?s" by code_simp
  have h2: "normalized_line cue_smth \<noteq> last_line ?s" by code_simp
  let ?s' = "\<lparr>speaker_map = [(''smith'', ''smith''), (''UNKNOWN'', ''UNKNOWN''), (''smth'', ''smith'')],
              blocks = [], last_line = ''>> smth: hello'', start_time = Some ''00:00:00.000'',
              end_time = Some ''00:00:02.000'', duration = Float 1 1,
              current_speech = ''>> smth: hello'', speaker = ''smith''\<rparr>"
  have h3: "loop_body False ?ks ?s cue_smth = Inr ?s'" by code_simp
  have d: "duration ?s' = Float 1 1" by simp
  from duplicate_cue_discarded [of cue_blank ?s False ?ks "[]" cue_smth ?s'] h1 h2 h3 d
  show ?thesis by blast
qed

subsection \<open>The blocks of a run\<close>

lemma map_of_fold_update:
  "map_of (fold (\<lambda>s m. AList.update s s m) xs m0) k = (if k \<in> set xs then Some k else map_of m0 k)"
  by (induction xs arbitrary: m0 rule: rev_induct) (auto simp: update_conv')

lemma map_ok_initial: "map_ok ks (initial_speaker_map ks)"
  by (simp add: map_ok_def initial_speaker_map_def map_of_fold_update)

lemma infer_speaker_resolved:
  assumes ok: "map_ok ks m" and r: "infer_speaker ni ks m x = Inr (v, m')"
  shows "v = resolved ni ks x \<and> map_ok ks m' \<and> (\<not> ni \<longrightarrow> v \<in> set ks)"
proof (cases ni)
  case True
  with ok r show ?thesis by (simp add: infer_speaker_def resolved_def)
next
  case False
  show ?thesis
  proof (cases "map_of m x")
    case None
    with ok have nk: "x \<notin> set ks" by (auto simp: map_ok_def)
    from r None False have g: "get_closest_match x ks = Inr v" and m': "m' = AList.update x v m"
      by (auto simp: infer_speaker_def split: sum.splits)
    from get_closest_match_mem[OF g] have vk: "v \<in> set ks" .
    have "map_ok ks m'"
      using ok nk g vk unfolding m' map_ok_def by (auto simp: update_conv')
    with g nk vk False show ?thesis by (simp add: resolved_def)
  next
    case (Some u)
    with r False have v: "v = u" and m': "m' = m" by (auto simp: infer_speaker_def)
    from ok Some have uk: "u \<in> set ks" by (auto simp: map_ok_def)
    have "u = resolved ni ks x"
    proof (cases "x \<in> set ks")
      case True
      with ok Some have "u = x" by (auto simp: map_ok_def)
      with True show ?thesis by (simp add: resolved_def)
    next
      case nk: False
      with ok Some have "get_closest_match x ks = Inr u" by (auto simp: map_ok_def)
      with nk False show ?thesis by (simp add: resolved_def)
    qed
    then have "v = resolved ni ks x" "v \<in> set ks" using v uk by simp_all
    with ok m' show ?thesis by blast
  qed
qed

lemma split_groups_Cons_marker:
  "is_marker c \<Longrightarrow> pre_marker (c # cs) = [] \<and> groups (c # cs) = (c # pre_marker cs) # groups cs"
  by (simp add: pre_marker_def groups_def split: prod.splits)

lemma split_groups_Cons_continuation:
  "\<not> is_marker c \<Longrightarrow> pre_marker (c # cs) = c # pre_marker cs \<and> groups (c # cs) = groups cs"
  by (simp add: pre_marker_def groups_def split: prod.splits)

lemma contribution_eq: "calc_duration (caption_start c) (caption_end c) = Inr d \<Longrightarrow> contribution c = d"
  by (auto simp: contribution_def calc_duration_def total_seconds_def split: sum.splits)

lemma loop_body_map_ok:
  assumes "loop_body ni ks s c = Inr s'" and "map_ok ks (speaker_map s)"
  shows "map_ok ks (speaker_map s')"
proof (cases "normalized_line c = last_line s")
  case True
  with assms show ?thesis by (simp add: loop_body_duplicate)
next
  case False
  show ?thesis
  proof (cases "is_marker c")
    case True
    from loop_body_marker[OF False True assms(1)] assms(2) show ?thesis
      by (auto split: if_splits dest: infer_speaker_resolved)
  next
    case nm: False
    from loop_body_continuation[OF False nm assms(1)] assms(2) show ?thesis by auto
  qed
qed

lemma loop_body_marker_block:
  assumes n: "normalized_line c \<noteq> last_line s" and mk: "is_marker c"
    and l: "loop_body ni ks s c = Inr t" and ok: "map_ok ks (speaker_map s)"
  shows "last_line t = normalized_line c"
    and "blocks t = blocks s @ current_block s []"
    and "current_block t pre = [block_of ni ks (c # pre)]"
proof -
  from loop_body_marker[OF n mk l] obtain d v m where
    d: "calc_duration (caption_start c) (caption_end c) = Inr d" and
    v: "if CHR '':'' \<in> set (normalized_line c)
        then infer_speaker ni ks (speaker_map s) (raw_label (normalized_line c)) = Inr (v, m)
        else v = UNKNOWN_SPEAKER \<and> m = speaker_map s" and
    tl: "last_line t = normalized_line c" and
    tb: "blocks t = blocks s @ current_block s []" and
    ts: "start_time t = Some (caption_start c)" "end_time t = Some (caption_end c)"
        "duration t = float_add (Float 0 0) d" "current_speech t = normalized_line c" "speaker t = v"
    by (auto simp: current_block_def end_after_def duration_after_def speech_after_def
             split: option.splits)
  have vs: "v = marker_speaker ni ks (normalized_line c)"
    using v infer_speaker_resolved[OF ok]
    by (auto simp: marker_speaker_def split: if_splits)
  show "last_line t = normalized_line c" by (rule tl)
  show "blocks t = blocks s @ current_block s []" by (rule tb)
  show "current_block t pre = [block_of ni ks (c # pre)]"
    using ts vs contribution_eq[OF d]
    by (simp add: current_block_def duration_after_def)
qed

lemma loop_body_continuation_block:
  assumes n: "normalized_line c \<noteq> last_line s" and nm: "\<not> is_marker c"
    and l: "loop_body ni ks s c = Inr t"
  shows "last_line t = normalized_line c"
    and "blocks t = blocks s"
    and "current_block t pre = current_block s (c # pre)"
proof -
  from loop_body_continuation[OF n nm l] obtain d where
    d: "calc_duration (caption_start c) (caption_end c) = Inr d" and
    t': "t = s\<lparr>last_line := normalized_line c,
              current_speech := current_speech s @ '' '' @ normalized_line c,
              end_time := Some (caption_end c),
              duration := float_add (duration s) d\<rparr>" by blast
  show "last_line t = normalized_line c" by (simp add: t')
  show "blocks t = blocks s" by (simp add: t')
  show "current_block t pre = current_block s (c # pre)"
    using contribution_eq[OF d]
    by (simp add: t' current_block_def duration_after_def end_after_def speech_after_def
             split: option.splits)
qed

lemma run_loop_emitted:
  assumes "run_loop ni ks s cs = Inr s'" and "map_ok ks (speaker_map s)"
  shows "blocks s' = blocks s @ emitted_from ni ks s (accepted (last_line s) cs)"
  using assms
proof (induction cs arbitrary: s)
  case Nil
  then show ?case by (simp add: emitted_from_def groups_def)
next
  case (Cons c cs)
  from Cons.prems(1) obtain t where t: "loop_body ni ks s c = Inr t" "run_loop ni ks t cs = Inr s'"
    by (auto split: sum.splits)
  have okt: "map_ok ks (speaker_map t)" by (rule loop_body_map_ok[OF t(1) Cons.prems(2)])
  note IH = Cons.IH[OF t(2) okt]
  show ?case
  proof (cases "normalized_line c = last_line s")
    case True
    then have "t = s" using t(1) by (simp add: loop_body_duplicate)
    with IH True show ?thesis by simp
  next
    case False
    let ?A = "accepted (normalized_line c) cs"
    have acc: "accepted (last_line s) (c # cs) = c # ?A" using False by simp
    show ?thesis
    proof (cases "is_marker c")
      case True
      note f = loop_body_marker_block[OF False True t(1) Cons.prems(2)]
      have "emitted_from ni ks s (c # ?A) = current_block s [] @ emitted_from ni ks t ?A"
        using True by (simp add: emitted_from_def split_groups_Cons_marker f(3))
      then show ?thesis unfolding acc using IH by (simp add: f(1) f(2))
    next
      case nm: False
      note f = loop_body_continuation_block[OF False nm t(1)]
      have "emitted_from ni ks s (c # ?A) = emitted_from ni ks t ?A"
        using nm by (simp add: emitted_from_def split_groups_Cons_continuation f(3))
      then show ?thesis unfolding acc using IH by (simp add: f(1) f(2))
    qed
  qed
qed

lemma run_loop_current_block:
  assumes "run_loop ni ks s cs = Inr s'" and "map_ok ks (speaker_map s)"
  shows "current_block s' [] =
           (if groups (accepted (last_line s) cs) = []
            then current_block s (pre_marker (accepted (last_line s) cs))
            else [block_of ni ks (last (groups (accepted (last_line s) cs)))])"
  using assms
proof (induction cs arbitrary: s)
  case Nil
  then show ?case by (simp add: groups_def pre_marker_def)
next
  case (Cons c cs)
  from Cons.prems(1) obtain t where t: "loop_body ni ks s c = Inr t" "run_loop ni ks t cs = Inr s'"
    by (auto split: sum.splits)
  have okt: "map_ok ks (speaker_map t)" by (rule loop_body_map_ok[OF t(1) Cons.prems(2)])
  note IH = Cons.IH[OF t(2) okt]
  show ?case
  proof (cases "normalized_line c = last_line s")
    case True
    then have "t = s" using t(1) by (simp add: loop_body_duplicate)
    with IH True show ?thesis by simp
  next
    case False
    let ?A = "accepted (normalized_line c) cs"
    have acc: "accepted (last_line s) (c # cs) = c # ?A" using False by simp
    show ?thesis
    proof (cases "is_marker c")
      case True
      note f = loop_body_marker_block[OF False True t(1) Cons.prems(2)]
      show ?thesis unfolding acc using IH True
        by (simp add: f(1) f(3) split_groups_Cons_marker)
    next
      case nm: False
      note f = loop_body_continuation_block[OF False nm t(1)]
      show ?thesis unfolding acc using IH nm
        by (simp add: f(1) f(3) split_groups_Cons_continuation)
    qed
  qed
qed

lemma current_block_initial: "current_block (initial_state ks) pre = []"
  by (simp add: current_block_def initial_state_def)

lemma get_speech_blocks_groups:
  assumes "get_speech_blocks cs ni ks = Inr (bs, m)"
  shows "bs = map (block_of ni ks) (butlast (groups (accepted [] cs)))"
proof -
  from assms obtain s' where r: "run_loop ni ks (initial_state ks) cs = Inr s'"
    and bs: "bs = blocks s'"
    by (auto simp: get_speech_blocks_def split: sum.splits)
  have ok: "map_ok ks (speaker_map (initial_state ks))"
    by (simp add: initial_state_def map_ok_initial)
  from run_loop_emitted[OF r ok] have "bs = emitted_from ni ks (initial_state ks) (accepted [] cs)"
    by (simp add: bs initial_state_def)
  then show ?thesis by (simp add: emitted_from_def current_block_initial)
qed

subsection \<open>A run with a pause between two cues\<close>

lemma gap_step_1: "loop_body False gap_known (initial_state gap_known) cue_gap_a = Inr gap_state_1"
  by code_simp

lemma gap_step_2: "loop_body False gap_known gap_state_1 cue_gap_b = Inr gap_state_2"
  by code_simp

lemma gap_step_3: "loop_body False gap_known gap_state_2 cue_gap_c = Inr gap_state_3"
  by code_simp

lemma gap_run: "run_loop False gap_known (initial_state gap_known) scenario_gap = Inr gap_state_3"
  by (simp add: scenario_gap_def gap_step_1 gap_step_2 gap_step_3)

lemma duration_differs_from_span:
  "get_speech_blocks scenario_gap False gap_known =
     Inr ([\<lparr>block_start = Some ''00:00:00.000'', block_end = Some ''00:00:12.000'',
            block_duration = Float 1 2, block_speaker = ''smith'',
            block_speech = ''>> smith: a b''\<rparr>],
          [(''smith'', ''smith''), (''jones'', ''jones''), (''UNKNOWN'', ''UNKNOWN'')])"
  by (simp add: get_speech_blocks_def gap_run) (simp add: gap_state_3_def)

lemma span: "calc_duration ''00:00:00.000'' ''00:00:12.000'' = Inr (Float 3 2)"
  by code_simp

subsection \<open>The block that is active when the cues end\<close>

text \<open>
  C2. When the loop has run through all the cues, the result of
  \<^const>\<open>get_speech_blocks\<close> is the list \<^const>\<open>blocks\<close> of the final state and
  nothing more. That list holds one block for each group of accepted cues but
  the last: a group is closed, and its block appended, by the marker line of the
  next group. When there is a group at all, the block of the last one is still
  in the loop variables at the end, and it is not in the result; the result has
  one block less than there are accepted marker lines.
\<close>

theorem active_block_not_appended:
  assumes "run_loop ni ks (initial_state ks) cs = Inr s'"
  shows "get_speech_blocks cs ni ks = Inr (blocks s', speaker_map s') \<and>
         blocks s' = map (block_of ni ks) (butlast (groups (accepted [] cs))) \<and>
         current_block s' [] =
           (if groups (accepted [] cs) = [] then []
            else [block_of ni ks (last (groups (accepted [] cs)))]) \<and>
         length (blocks s') = length (groups (accepted [] cs)) - 1"
proof -
  have g: "get_speech_blocks cs ni ks = Inr (blocks s', speaker_map s')"
    using assms by (simp add: get_speech_blocks_def)
  have ok: "map_ok ks (speaker_map (initial_state ks))"
    by (simp add: initial_state_def map_ok_initial)
  have b: "blocks s' = map (block_of ni ks) (butlast (groups (accepted [] cs)))"
    by (rule get_speech_blocks_groups[OF g])
  have c: "current_block s' [] =
           (if groups (accepted [] cs) = [] then []
            else [block_of ni ks (last (groups (accepted [] cs)))])"
    using run_loop_current_block[OF assms ok]
    by (simp add: current_block_initial) (simp add: initial_state_def)
  from g b c show ?thesis by simp
qed

theorem active_block_not_appended_witness:
  "run_loop False gap_known (initial_state gap_known) scenario_gap = Inr gap_state_3 \<and>
   get_speech_blocks scenario_gap False gap_known = Inr (blocks gap_state_3, speaker_map gap_state_3) \<and>
   length (blocks gap_state_3) = length (groups (accepted [] scenario_gap)) - 1"
  using active_block_not_appended [OF gap_run] gap_run by simp

subsection \<open>Durations\<close>


lemma groups_member:
  "g \<in> set (groups cs) \<Longrightarrow> \<exists>c rest. g = c # rest \<and> c \<in> set cs \<and> is_marker c"
proof (induction cs arbitrary: g)
  case Nil
  then show ?case by (simp add: groups_def)
next
  case (Cons a cs)
  show ?case
  proof (cases "is_marker a")
    case True
    with Cons.prems have "g = a # pre_marker cs \<or> g \<in> set (groups cs)"
      by (simp add: split_groups_Cons_marker)
    then show ?thesis
    proof
      assume "g = a # pre_marker cs"
      with True show ?thesis by simp
    next
      assume "g \<in> set (groups cs)"
      from Cons.IH[OF this] show ?thesis by auto
    qed
  next
    case False
    with Cons.prems have "g \<in> set (groups cs)" by (simp add: split_groups_Cons_continuation)
    from Cons.IH[OF this] show ?thesis by auto
  qed
qed











lemma tenths_float_side:
  "float_sub
     (float_sub (duration_after (Float 0 0) (accepted [] scenario_tenths))
        (duration_after (Float 0 0) (pre_marker (accepted [] scenario_tenths))))
     (duration_after (Float 0 0) (last (groups (accepted [] scenario_tenths)))) =
   Float 5404319552844595 (- 54)"
  by code_simp

lemma tenths_exact_side:
  "exact_sub
     (exact_sub (exact_total (accepted [] scenario_tenths))
        (exact_total (pre_marker (accepted [] scenario_tenths))))
     (exact_total (last (groups (accepted [] scenario_tenths)))) =
   Float 10808639105689191 (- 55)"
  by code_simp

subsection \<open>Cues before the first marker\<close>

lemma run_loop_append:
  "run_loop ni ks s (xs @ ys) =
     (case run_loop ni ks s xs of Inl e \<Rightarrow> Inl e | Inr t \<Rightarrow> run_loop ni ks t ys)"
  by (induction xs arbitrary: s) (auto split: sum.splits)

lemma run_loop_no_marker:
  assumes "\<forall>c\<in>set pre. \<not> is_marker c" and "run_loop ni ks s pre = Inr t"
  shows "blocks t = blocks s \<and> start_time t = start_time s \<and> speaker_map t = speaker_map s \<and>
         (last_line t = last_line s \<or> (\<exists>c\<in>set pre. \<not> is_marker c \<and> last_line t = normalized_line c))"
  using assms
proof (induction pre arbitrary: s)
  case Nil
  then show ?case by simp
next
  case (Cons c pre)
  from Cons.prems(2) obtain u where u: "loop_body ni ks s c = Inr u" "run_loop ni ks u pre = Inr t"
    by (auto split: sum.splits)
  from Cons.prems(1) have nm: "\<not> is_marker c" and rest: "\<forall>c\<in>set pre. \<not> is_marker c" by auto
  note IH = Cons.IH[OF rest u(2)]
  show ?case
  proof (cases "normalized_line c = last_line s")
    case True
    then have "u = s" using u(1) by (simp add: loop_body_duplicate)
    with IH show ?thesis by auto
  next
    case False
    from loop_body_continuation[OF False nm u(1)]
    have "blocks u = blocks s" "start_time u = start_time s" "speaker_map u = speaker_map s"
      "last_line u = normalized_line c" by auto
    with IH nm show ?thesis by auto
  qed
qed

lemma loop_body_first_marker:
  assumes "is_marker c" and "normalized_line c \<noteq> last_line s" and "normalized_line c \<noteq> last_line t"
    and "start_time s = None" and "start_time t = None"
    and "blocks s = blocks t" and "speaker_map s = speaker_map t"
  shows "loop_body ni ks s c = loop_body ni ks t c"
  using assms
  by (cases s; cases t)
     (auto simp: loop_body_def marker_branch_def is_marker_def Let_def
           split: sum.splits prod.splits)

lemma marker_line_differs:
  "is_marker c \<Longrightarrow> \<not> is_marker c' \<Longrightarrow> normalized_line c \<noteq> normalized_line c'"
  by (auto simp: is_marker_def)

lemma marker_line_nonempty: "is_marker c \<Longrightarrow> normalized_line c \<noteq> []"
  by (auto simp: is_marker_def)

text \<open>
  C9. Let \<open>pre\<close> be cues none of which is a marker line, followed by cues
  \<open>rest\<close> that begin with a marker line (or by nothing). Whenever the run on
  \<open>pre\<close> and \<open>rest\<close> returns, the run on \<open>rest\<close> alone returns the very same
  blocks and speaker map: the cues of \<open>pre\<close> add nothing to the speech or to
  the duration of any block, and so nothing to the transcript. The blocks are
  those of the groups of \<open>rest\<close>.
\<close>

theorem pre_marker_cues_leave_no_trace:
  assumes pre: "\<forall>c\<in>set pre. \<not> is_marker c"
    and rest: "rest \<noteq> [] \<longrightarrow> is_marker (hd rest)"
    and run: "get_speech_blocks (pre @ rest) ni ks = Inr (bs, m)"
  shows "get_speech_blocks rest ni ks = Inr (bs, m) \<and>
         bs = map (block_of ni ks) (butlast (groups (accepted [] rest)))"
proof -
  let ?i = "initial_state ks"
  from run obtain s' where r: "run_loop ni ks ?i (pre @ rest) = Inr s'"
    and out: "bs = blocks s'" "m = speaker_map s'"
    by (auto simp: get_speech_blocks_def split: sum.splits)
  from r obtain t where t: "run_loop ni ks ?i pre = Inr t" and r2: "run_loop ni ks t rest = Inr s'"
    by (auto simp: run_loop_append split: sum.splits)
  note f = run_loop_no_marker[OF pre t]
  have g: "get_speech_blocks rest ni ks = Inr (bs, m)"
  proof (cases rest)
    case Nil
    with r2 have "s' = t" by simp
    with f have "blocks s' = blocks ?i" "speaker_map s' = speaker_map ?i" by auto
    then show ?thesis using Nil out by (simp add: get_speech_blocks_def)
  next
    case (Cons c cs)
    with rest have mk: "is_marker c" by simp
    have n1: "normalized_line c \<noteq> last_line ?i"
      using marker_line_nonempty[OF mk] by (simp add: initial_state_def)
    have n2: "normalized_line c \<noteq> last_line t"
    proof
      assume e: "normalized_line c = last_line t"
      from f have "last_line t = last_line ?i \<or>
          (\<exists>c'\<in>set pre. \<not> is_marker c' \<and> last_line t = normalized_line c')" by simp
      then show False
      proof
        assume "last_line t = last_line ?i"
        with e n1 show False by simp
      next
        assume "\<exists>c'\<in>set pre. \<not> is_marker c' \<and> last_line t = normalized_line c'"
        then obtain c' where "\<not> is_marker c'" "last_line t = normalized_line c'" by blast
        with e marker_line_differs[OF mk, of c'] show False by simp
      qed
    qed
    have "loop_body ni ks t c = loop_body ni ks ?i c"
      using f by (intro loop_body_first_marker[OF mk n2 n1]) (simp_all add: initial_state_def)
    with r2 Cons have "run_loop ni ks ?i rest = Inr s'" by simp
    then show ?thesis using out by (simp add: get_speech_blocks_def)
  qed
  from g get_speech_blocks_groups[OF g] show ?thesis by simp
qed

lemma welcome_step_1:
  "loop_body False gap_known (initial_state gap_known) cue_welcome = Inr welcome_state"
  by code_simp

lemma welcome_step_2: "loop_body False gap_known welcome_state cue_gap_a = Inr gap_state_1"
  by code_simp

lemma welcome_run:
  "get_speech_blocks ([cue_welcome] @ scenario_gap) False gap_known =
     Inr (blocks gap_state_3, speaker_map gap_state_3)"
  by (simp add: get_speech_blocks_def scenario_gap_def welcome_step_1 welcome_step_2
        gap_step_2 gap_step_3)

lemma cue_welcome_no_marker: "\<not> is_marker cue_welcome"
  by code_simp

lemma cue_gap_a_marker: "is_marker cue_gap_a"
  by code_simp

theorem pre_marker_cues_leave_no_trace_witness:
  "\<not> is_marker cue_welcome \<and> is_marker (hd scenario_gap) \<and>
   get_speech_blocks ([cue_welcome] @ scenario_gap) False gap_known =
     Inr (blocks gap_state_3, speaker_map gap_state_3) \<and>
   get_speech_blocks scenario_gap False gap_known =
     Inr (blocks gap_state_3, speaker_map gap_state_3)"
proof -
  have h1: "\<forall>c\<in>set [cue_welcome]. \<not> is_marker c"
    by (simp add: cue_welcome_no_marker)
  have m: "is_marker (hd scenario_gap)"
    by (simp add: scenario_gap_def cue_gap_a_marker)
  then have h2: "scenario_gap \<noteq> [] \<longrightarrow> is_marker (hd scenario_gap)" by simp
  note t = pre_marker_cues_leave_no_trace [OF h1 h2 welcome_run]
  show ?thesis by (intro conjI cue_welcome_no_marker m welcome_run) (rule t [THEN conjunct1])
qed

subsection \<open>Speakers are known speakers\<close>

lemma run_loop_map_ok:
  "run_loop ni ks s cs = Inr s' \<Longrightarrow> map_ok ks (speaker_map s) \<Longrightarrow> map_ok ks (speaker_map s')"
proof (induction cs arbitrary: s)
  case Nil
  then show ?case by simp
next
  case (Cons c cs)
  from Cons.prems(1) obtain t where t: "loop_body ni ks s c = Inr t" "run_loop ni ks t cs = Inr s'"
    by (auto split: sum.splits)
  from Cons.IH[OF t(2) loop_body_map_ok[OF t(1) Cons.prems(2)]] show ?case .
qed

lemma run_loop_marker_speakers:
  assumes "run_loop False ks s cs = Inr s'" and "map_ok ks (speaker_map s)"
  shows "\<forall>c\<in>set (accepted (last_line s) cs).
           is_marker c \<longrightarrow> CHR '':'' \<in> set (normalized_line c) \<longrightarrow>
           marker_speaker False ks (normalized_line c) \<in> set ks"
  using assms
proof (induction cs arbitrary: s)
  case Nil
  then show ?case by simp
next
  case (Cons c cs)
  from Cons.prems(1) obtain t where t: "loop_body False ks s c = Inr t" "run_loop False ks t cs = Inr s'"
    by (auto split: sum.splits)
  have okt: "map_ok ks (speaker_map t)" by (rule loop_body_map_ok[OF t(1) Cons.prems(2)])
  note IH = Cons.IH[OF t(2) okt]
  show ?case
  proof (cases "normalized_line c = last_line s")
    case True
    then have "t = s" using t(1) by (simp add: loop_body_duplicate)
    with IH True show ?thesis by simp
  next
    case False
    show ?thesis
    proof (cases "is_marker c")
      case True
      note f = loop_body_marker_block[OF False True t(1) Cons.prems(2)]
      have "marker_speaker False ks (normalized_line c) \<in> set ks"
        if col: "CHR '':'' \<in> set (normalized_line c)"
      proof -
        from loop_body_marker[OF False True t(1)] col obtain v m where
          "infer_speaker False ks (speaker_map s) (raw_label (normalized_line c)) = Inr (v, m)"
          by auto
        from infer_speaker_resolved[OF Cons.prems(2) this] col show ?thesis
          by (auto simp: marker_speaker_def)
      qed
      with IH False show ?thesis by (simp add: f(1))
    next
      case nm: False
      note f = loop_body_continuation_block[OF False nm t(1)]
      from IH False nm show ?thesis by (simp add: f(1))
    qed
  qed
qed

lemma infer_speaker_known:
  assumes "\<forall>k u. map_of m0 k = Some u \<longrightarrow> u \<in> set ks"
    and "infer_speaker False ks m0 x = Inr (v, m1)"
  shows "v \<in> set ks \<and> (\<forall>k u. map_of m1 k = Some u \<longrightarrow> u \<in> set ks)"
proof (cases "map_of m0 x")
  case None
  with assms(2) have g: "get_closest_match x ks = Inr v" and m1: "m1 = AList.update x v m0"
    by (auto simp: infer_speaker_def split: sum.splits)
  from get_closest_match_mem[OF g] assms(1) show ?thesis
    unfolding m1 by (auto simp: update_conv')
next
  case (Some u)
  with assms show ?thesis by (auto simp: infer_speaker_def)
qed

text \<open>
  C10. With inference on: if every value of the speaker map is a known speaker,
  a resolution that returns gives a known speaker and a map whose values are
  still known speakers. After a run of \<^const>\<open>get_speech_blocks\<close> every value of
  the speaker map is a known speaker, and every emitted block whose marker line
  has a colon has a known speaker as its speaker. When the list of known
  speakers holds the sentinel, as the list that \<^verbatim>\<open>main\<close> reads always does, the
  speaker of every emitted block is in the list.
\<close>

theorem speakers_are_known:
  "((\<forall>k u. map_of m0 k = Some u \<longrightarrow> u \<in> set ks) \<and>
    infer_speaker False ks m0 x = Inr (v, m1) \<longrightarrow>
      v \<in> set ks \<and> (\<forall>k u. map_of m1 k = Some u \<longrightarrow> u \<in> set ks)) \<and>
   (get_speech_blocks cs False ks = Inr (bs, m) \<longrightarrow>
      (\<forall>k u. map_of m k = Some u \<longrightarrow> u \<in> set ks) \<and>
      bs = map (block_of False ks) (butlast (groups (accepted [] cs))) \<and>
      (\<forall>g\<in>set (butlast (groups (accepted [] cs))).
         CHR '':'' \<in> set (normalized_line (hd g)) \<longrightarrow>
         block_speaker (block_of False ks g) \<in> set ks) \<and>
      (UNKNOWN_SPEAKER \<in> set ks \<longrightarrow> (\<forall>b\<in>set bs. block_speaker b \<in> set ks))) \<and>
   UNKNOWN_SPEAKER \<in> set (read_known_speakers speaker_lines)"
proof -
  let ?gs = "groups (accepted [] cs)"
  have third: "UNKNOWN_SPEAKER \<in> set (read_known_speakers speaker_lines)"
    by (simp add: read_known_speakers_def)
  have second: "(\<forall>k u. map_of m k = Some u \<longrightarrow> u \<in> set ks) \<and>
      bs = map (block_of False ks) (butlast ?gs) \<and>
      (\<forall>g\<in>set (butlast ?gs).
         CHR '':'' \<in> set (normalized_line (hd g)) \<longrightarrow>
         block_speaker (block_of False ks g) \<in> set ks) \<and>
      (UNKNOWN_SPEAKER \<in> set ks \<longrightarrow> (\<forall>b\<in>set bs. block_speaker b \<in> set ks))"
    if run: "get_speech_blocks cs False ks = Inr (bs, m)"
  proof -
    from run obtain s' where r: "run_loop False ks (initial_state ks) cs = Inr s'"
      and out: "bs = blocks s'" "m = speaker_map s'"
      by (auto simp: get_speech_blocks_def split: sum.splits)
    have ok: "map_ok ks (speaker_map (initial_state ks))"
      by (simp add: initial_state_def map_ok_initial)
    from run_loop_map_ok[OF r ok] have a: "\<forall>k u. map_of m k = Some u \<longrightarrow> u \<in> set ks"
      by (simp add: out map_ok_def)
    have b: "bs = map (block_of False ks) (butlast ?gs)"
      by (rule get_speech_blocks_groups[OF run])
    from run_loop_marker_speakers[OF r ok]
    have ms: "\<forall>c\<in>set (accepted [] cs).
           is_marker c \<longrightarrow> CHR '':'' \<in> set (normalized_line c) \<longrightarrow>
           marker_speaker False ks (normalized_line c) \<in> set ks"
      by (simp add: initial_state_def)
    have sp: "block_speaker (block_of False ks g) = marker_speaker False ks (normalized_line (hd g)) \<and>
              hd g \<in> set (accepted [] cs) \<and> is_marker (hd g)"
      if "g \<in> set (butlast ?gs)" for g
    proof -
      from that have "g \<in> set ?gs" by (rule in_set_butlastD)
      from groups_member[OF this] show ?thesis by auto
    qed
    have c: "\<forall>g\<in>set (butlast ?gs).
         CHR '':'' \<in> set (normalized_line (hd g)) \<longrightarrow>
         block_speaker (block_of False ks g) \<in> set ks"
      using sp ms by auto
    have d: "\<forall>b\<in>set bs. block_speaker b \<in> set ks" if u: "UNKNOWN_SPEAKER \<in> set ks"
    proof
      fix b assume "b \<in> set bs"
      then obtain g where g: "g \<in> set (butlast ?gs)" "b = block_of False ks g"
        unfolding b by auto
      show "block_speaker b \<in> set ks"
      proof (cases "CHR '':'' \<in> set (normalized_line (hd g))")
        case True
        with c g show ?thesis by simp
      next
        case False
        with sp[OF g(1)] u show ?thesis by (simp add: g(2) marker_speaker_def)
      qed
    qed
    from a b c d show ?thesis by blast
  qed
  from infer_speaker_known[of m0 ks x v m1] second third show ?thesis by blast
qed

theorem speakers_are_known_witness:
  "infer_speaker False gap_known (initial_speaker_map gap_known) ''smth'' =
     Inr (''smith'', initial_speaker_map gap_known @ [(''smth'', ''smith'')]) \<and>
   ''smith'' \<in> set gap_known \<and>
   get_speech_blocks scenario_gap False gap_known =
     Inr (blocks gap_state_3, speaker_map gap_state_3) \<and>
   UNKNOWN_SPEAKER \<in> set gap_known \<and>
   block_speaker (hd (blocks gap_state_3)) \<in> set gap_known"
proof -
  have h1: "\<forall>k u. map_of (initial_speaker_map gap_known) k = Some u \<longrightarrow> u \<in> set gap_known"
    using map_ok_initial[of gap_known] by (simp add: map_ok_def)
  have h2: "infer_speaker False gap_known (initial_speaker_map gap_known) ''smth'' =
     Inr (''smith'', initial_speaker_map gap_known @ [(''smth'', ''smith'')])"
    by code_simp
  have h3: "get_speech_blocks scenario_gap False gap_known =
     Inr (blocks gap_state_3, speaker_map gap_state_3)"
    by (simp add: get_speech_blocks_def gap_run)
  have h4: "UNKNOWN_SPEAKER \<in> set gap_known"
    by (simp add: UNKNOWN_SPEAKER_def gap_known_def)
  have h5: "hd (blocks gap_state_3) \<in> set (blocks gap_state_3)"
    by (simp add: gap_state_3_def)
  note t = speakers_are_known [of "initial_speaker_map gap_known" gap_known "''smth''" "''smith''"
      "initial_speaker_map gap_known @ [(''smth'', ''smith'')]" scenario_gap
      "blocks gap_state_3" "speaker_map gap_state_3"]
  from t h1 h2 have a: "''smith'' \<in> set gap_known" by blast
  from t h3 h4 have "\<forall>b\<in>set (blocks gap_state_3). block_speaker b \<in> set gap_known" by blast
  with h5 have b: "block_speaker (hd (blocks gap_state_3)) \<in> set gap_known" by blast
  from h2 a h3 h4 b show ?thesis by (intro conjI)
qed

subsection \<open>Header repair\<close>

lemma readline_Nil: "readline content pos = [] \<longleftrightarrow> drop pos content = []"
  by (cases "drop pos content") (auto simp: readline_def)

lemma lines_from_first:
  "lines_from acc r =
     (if r = [] then (if acc = [] then [] else [acc])
      else (acc @ readline r 0) # lines_from [] (drop (length (readline r 0)) r))"
proof (induction r arbitrary: acc)
  case Nil
  then show ?case by simp
next
  case (Cons c cs)
  show ?case
  proof (cases "c = CHR 0x0A")
    case True
    then show ?thesis by (simp add: readline_def)
  next
    case False
    have "lines_from acc (c # cs) = lines_from (acc @ [c]) cs" using False by simp
    also have "\<dots> = (if cs = [] then [acc @ [c]]
        else (acc @ [c] @ readline cs 0) # lines_from [] (drop (length (readline cs 0)) cs))"
      by (subst Cons.IH) simp
    also have "\<dots> = (acc @ readline (c # cs) 0) #
        lines_from [] (drop (length (readline (c # cs) 0)) (c # cs))"
      using False by (simp add: readline_def)
    finally show ?thesis by simp
  qed
qed

lemma file_lines_first:
  "r \<noteq> [] \<Longrightarrow> file_lines r = readline r 0 # file_lines (drop (length (readline r 0)) r)"
  unfolding file_lines_def by (subst lines_from_first) simp

lemma concat_lines_from: "concat (lines_from acc r) = acc @ r"
  by (induction r arbitrary: acc) auto

lemma concat_file_lines: "concat (file_lines content) = content"
  by (simp add: file_lines_def concat_lines_from)

lemma readline_drop: "readline content pos = readline (drop pos content) 0"
  by (simp add: readline_def)

lemma find_timestamp_line_lines:
  "find_timestamp_line content pos pos =
     (if \<exists>l\<in>set (file_lines (drop pos content)). is_timestamp_line l
      then Inr (pos + length (concat (takeWhile (\<lambda>l. \<not> is_timestamp_line l)
                                        (file_lines (drop pos content)))))
      else Inl Exception)"
proof (induction "length content - pos" arbitrary: pos rule: less_induct)
  case less
  let ?r = "drop pos content"
  let ?line = "readline content pos"
  show ?case
  proof (cases "?line = []")
    case True
    then have "?r = []" by (simp add: readline_Nil)
    then have "file_lines ?r = []" by (simp add: file_lines_def)
    with True show ?thesis by (subst find_timestamp_line.simps) simp
  next
    case False
    then have ne: "?r \<noteq> []" by (simp add: readline_Nil)
    have fl: "file_lines ?r = ?line # file_lines (drop (pos + length ?line) content)"
      using file_lines_first[OF ne] readline_drop[of content pos] by (simp add: add.commute)
    show ?thesis
    proof (cases "is_timestamp_line ?line")
      case True
      with False show ?thesis
        by (subst find_timestamp_line.simps) (simp add: fl is_timestamp_line_def)
    next
      case nt: False
      from ne have "pos < length content" by simp
      moreover from False have "0 < length ?line" by simp
      ultimately have "length content - (pos + length ?line) < length content - pos" by arith
      note IH = less[OF this]
      have "find_timestamp_line content pos pos =
            find_timestamp_line content (pos + length ?line) (pos + length ?line)"
        using False nt by (subst find_timestamp_line.simps) (simp add: is_timestamp_line_def Let_def)
      then show ?thesis using nt by (simp add: IH fl)
    qed
  qed
qed

text \<open>
  C8. \<^const>\<open>preprocess\<close> raises its exception exactly when no line of the input
  begins with a timestamp of the form \<^verbatim>\<open>HH:MM:SS.mmm\<close>, and it raises nothing
  else. When there is such a line, it returns the header \<^verbatim>\<open>WEBVTT\<close> with a
  carriage return and a line feed, followed by the input from the first such
  line on.
\<close>

theorem preprocess_header_repair:
  "(preprocess content = Inl Exception \<longleftrightarrow>
      \<not> (\<exists>l\<in>set (file_lines content). is_timestamp_line l)) \<and>
   (\<forall>e. preprocess content = Inl e \<longrightarrow> e = Exception) \<and>
   ((\<exists>l\<in>set (file_lines content). is_timestamp_line l) \<longrightarrow>
      preprocess content =
        Inr (''WEBVTT'' @ [CHR 0x0D, CHR 0x0A] @
             concat (dropWhile (\<lambda>l. \<not> is_timestamp_line l) (file_lines content))))"
proof -
  let ?ls = "file_lines content"
  let ?tw = "takeWhile (\<lambda>l. \<not> is_timestamp_line l) ?ls"
  let ?dw = "dropWhile (\<lambda>l. \<not> is_timestamp_line l) ?ls"
  have "content = concat ?tw @ concat ?dw"
    using concat_file_lines[of content] takeWhile_dropWhile_id[of "\<lambda>l. \<not> is_timestamp_line l" ?ls]
    by (metis concat_append)
  then have d: "drop (length (concat ?tw)) content = concat ?dw"
    by (metis append_eq_conv_conj)
  have f: "find_timestamp_line content 0 0 =
     (if \<exists>l\<in>set ?ls. is_timestamp_line l then Inr (length (concat ?tw)) else Inl Exception)"
    using find_timestamp_line_lines[of content 0] by simp
  show ?thesis
  proof (cases "\<exists>l\<in>set ?ls. is_timestamp_line l")
    case True
    with f have "find_timestamp_line content 0 0 = Inr (length (concat ?tw))" by simp
    then have "preprocess content = Inr (''WEBVTT'' @ [CHR 0x0D, CHR 0x0A] @ concat ?dw)"
      by (simp add: preprocess_def d)
    with True show ?thesis by simp
  next
    case False
    with f have "find_timestamp_line content 0 0 = Inl Exception" by simp
    then have "preprocess content = Inl Exception" by (simp add: preprocess_def)
    with False show ?thesis by simp
  qed
qed

lemma vtt_with_header_has_cue: "\<exists>l\<in>set (file_lines vtt_with_header). is_timestamp_line l"
  by code_simp

lemma vtt_without_cue_has_none: "\<not> (\<exists>l\<in>set (file_lines vtt_without_cue). is_timestamp_line l)"
  by code_simp

lemma vtt_with_header_tail:
  "concat (dropWhile (\<lambda>l. \<not> is_timestamp_line l) (file_lines vtt_with_header)) =
     ''00:00:00.000 --> 00:00:02.000'' @ [CHR 0x0A] @ ''>> smith: hello'' @ [CHR 0x0A]"
  by code_simp

theorem preprocess_header_repair_witness:
  "(\<exists>l\<in>set (file_lines vtt_with_header). is_timestamp_line l) \<and>
   preprocess vtt_with_header =
     Inr (''WEBVTT'' @ [CHR 0x0D, CHR 0x0A] @
          ''00:00:00.000 --> 00:00:02.000'' @ [CHR 0x0A] @ ''>> smith: hello'' @ [CHR 0x0A]) \<and>
   \<not> (\<exists>l\<in>set (file_lines vtt_without_cue). is_timestamp_line l) \<and>
   preprocess vtt_without_cue = Inl Exception"
proof -
  note a = preprocess_header_repair [of vtt_with_header, THEN conjunct2, THEN conjunct2, rule_format,
      OF vtt_with_header_has_cue]
  note b = preprocess_header_repair [of vtt_without_cue, THEN conjunct1, THEN iffD2,
      OF vtt_without_cue_has_none]
  have a': "preprocess vtt_with_header =
     Inr (''WEBVTT'' @ [CHR 0x0D, CHR 0x0A] @
          ''00:00:00.000 --> 00:00:02.000'' @ [CHR 0x0A] @ ''>> smith: hello'' @ [CHR 0x0A])"
    using a unfolding vtt_with_header_tail .
  show ?thesis by (intro conjI vtt_with_header_has_cue a' vtt_without_cue_has_none b)
qed

end
